theory Spec2Isabelle
  imports Main "HOL-Library.Sublist"
begin

section \<open>The observer of src/observer.ts: data\<close>

text \<open>
  A JavaScript value of static type \<open>Subscriber\<close>: a reference to an object (compared by
  identity, so \<open>!==\<close> is inequality of references) or \<open>null\<close>, which only the compiler
  keeps out of a \<open>Subscriber\<close> position.
\<close>

datatype val = Null | Ref nat

text \<open>
  \<open>interface Subscriber { update(videoTitle: string): void }\<close> is open. The source has one
  class, \<open>UserSubscriber\<close>, with a private \<open>name\<close>. Any other implementation can reach the
  channel only through its public methods; a \<open>CallbackSubscriber\<close> is such an object: from
  the title and its own state (of type \<open>'e\<close>) its \<open>update\<close> decides which
  \<open>addSubscriber\<close> and \<open>removeSubscriber\<close> calls it makes on the channel, and its next
  state.
\<close>

datatype call = AddSubscriber val | RemoveSubscriber val

datatype 'e subscriber_obj =
    UserSubscriber string
  | CallbackSubscriber "string \<Rightarrow> 'e \<Rightarrow> call list \<times> 'e"

text \<open>\<open>class YoutubeChannel\<close>: the field \<open>subscriber\<close> holds a reference to an array.\<close>

record YoutubeChannel =
  subscriber :: nat
  name :: string

text \<open>
  The store. \<open>arrays\<close> maps an array reference to the array's elements, \<open>fresh\<close> is the
  next unused array reference, \<open>objects\<close> maps a reference to the subscriber object it
  denotes, \<open>console\<close> is the list of messages written by \<open>console.log\<close> (each call writes
  its message and a line terminator), \<open>env\<close> is the state of the callback subscribers.
  \<open>invoked\<close> records every invocation of \<open>update\<close>: the receiver and the argument.
\<close>

record 'e world =
  objects :: "nat \<Rightarrow> 'e subscriber_obj"
  arrays :: "nat \<Rightarrow> val list"
  fresh :: nat
  channel :: YoutubeChannel
  console :: "string list"
  invoked :: "(nat \<times> string) list"
  env :: 'e

datatype error = TypeError

text \<open>The two emoji of the messages, as the UTF-8 bytes that reach standard output.\<close>

definition tv_emoji :: string where
  "tv_emoji = [CHR 0xF0, CHR 0x9F, CHR 0x93, CHR 0xBA]"

definition bell_emoji :: string where
  "bell_emoji = [CHR 0xF0, CHR 0x9F, CHR 0x94, CHR 0x94]"

section \<open>Operations\<close>

text \<open>
  \<open>new YoutubeChannel(channelName)\<close>: the field initialiser allocates an empty array, the
  constructor stores the name.
\<close>

definition new_YoutubeChannel :: "string \<Rightarrow> 'e world \<Rightarrow> 'e world" where
  "new_YoutubeChannel channelName w =
     w\<lparr>arrays := (arrays w)(fresh w := []),
       channel := \<lparr>subscriber = fresh w, name = channelName\<rparr>,
       fresh := Suc (fresh w)\<rparr>"

text \<open>\<open>this.subscriber.push(subscriber)\<close>: the array the field refers to grows in place.\<close>

definition addSubscriber :: "val \<Rightarrow> 'e world \<Rightarrow> 'e world" where
  "addSubscriber s w =
     (let a = subscriber (channel w)
      in w\<lparr>arrays := (arrays w)(a := arrays w a @ [s])\<rparr>)"

text \<open>
  \<open>this.subscriber = this.subscriber.filter((sub) => sub !== subscriber)\<close>: \<open>filter\<close>
  builds a new array, and the field is assigned a reference to it; the old array is
  left as it was.
\<close>

definition removeSubscriber :: "val \<Rightarrow> 'e world \<Rightarrow> 'e world" where
  "removeSubscriber s w =
     (let a = subscriber (channel w); b = fresh w
      in w\<lparr>arrays := (arrays w)(b := filter (\<lambda>sub. sub \<noteq> s) (arrays w a)),
           fresh := Suc b,
           channel := (channel w)\<lparr>subscriber := b\<rparr>\<rparr>)"

fun run_call :: "call \<Rightarrow> 'e world \<Rightarrow> 'e world" where
  "run_call (AddSubscriber s) w = addSubscriber s w"
| "run_call (RemoveSubscriber s) w = removeSubscriber s w"

text \<open>
  \<open>subscriber.update(title)\<close> on the object \<open>r\<close>, by dynamic dispatch.
  \<open>UserSubscriber.update\<close> writes one message.
\<close>

definition notified_line :: "string \<Rightarrow> string \<Rightarrow> string" where
  "notified_line n videoTitle =
     bell_emoji @ '' '' @ n @ '' got notified: New video '' @ [CHR 0x22] @ videoTitle
       @ [CHR 0x22] @ '' uploaded!''"

definition update :: "nat \<Rightarrow> string \<Rightarrow> 'e world \<Rightarrow> 'e world" where
  "update r videoTitle w =
     (let w1 = w\<lparr>invoked := invoked w @ [(r, videoTitle)]\<rparr>
      in case objects w r of
           UserSubscriber n \<Rightarrow> w1\<lparr>console := console w1 @ [notified_line n videoTitle]\<rparr>
         | CallbackSubscriber f \<Rightarrow>
             (case f videoTitle (env w1) of
                (cs, e) \<Rightarrow> fold run_call cs (w1\<lparr>env := e\<rparr>)))"

text \<open>
  \<open>Array.prototype.map\<close> on the array \<open>a\<close>, as ECMAScript defines it: the length is read
  once, before the loop; for each index \<open>k\<close> below it, in ascending order, the callback
  is called on the element at \<open>k\<close> if the array has one at that moment. The callback here
  is \<open>(subscriber) => { subscriber.update(title); }\<close>, which throws a TypeError on
  \<open>null\<close>. The array of results that \<open>map\<close> returns is dropped by the caller and not
  modelled.
\<close>

function ArrayMap :: "nat \<Rightarrow> string \<Rightarrow> nat \<Rightarrow> nat \<Rightarrow> 'e world \<Rightarrow> error + 'e world" where
  "ArrayMap a title len k w =
     (if k < len then
        (if k < length (arrays w a) then
           (case arrays w a ! k of
              Null \<Rightarrow> Inl TypeError
            | Ref r \<Rightarrow> ArrayMap a title len (Suc k) (update r title w))
         else ArrayMap a title len (Suc k) w)
      else Inr w)"
  by pat_completeness auto
termination
  by (relation "measure (\<lambda>(a, title, len, k, w). len - k)") auto

declare ArrayMap.simps [simp del]

definition uploaded_line :: "string \<Rightarrow> string \<Rightarrow> string" where
  "uploaded_line n title =
     tv_emoji @ '' '' @ n @ '' uploaded: '' @ [CHR 0x22] @ title @ [CHR 0x22]"

definition videoUpload :: "string \<Rightarrow> 'e world \<Rightarrow> error + 'e world" where
  "videoUpload title w =
     (let w1 = w\<lparr>console := console w @ [uploaded_line (name (channel w)) title]\<rparr>;
          a = subscriber (channel w1)
      in ArrayMap a title (length (arrays w1 a)) 0 w1)"

text \<open>The subscriber sequence of the channel: the elements of the array its field refers to.\<close>

definition subs :: "'e world \<Rightarrow> val list" where
  "subs w = arrays w (subscriber (channel w))"

text \<open>The field refers to an allocated array.\<close>

definition wf :: "'e world \<Rightarrow> bool" where
  "wf w \<longleftrightarrow> subscriber (channel w) < fresh w"

text \<open>A script of calls made by the channel's owner, run until the first exception.\<close>

datatype op = Add val | Remove val | Publish string

fun exec :: "op \<Rightarrow> 'e world \<Rightarrow> error + 'e world" where
  "exec (Add s) w = Inr (addSubscriber s w)"
| "exec (Remove s) w = Inr (removeSubscriber s w)"
| "exec (Publish title) w = videoUpload title w"

fun run :: "op list \<Rightarrow> 'e world \<Rightarrow> error + 'e world" where
  "run [] w = Inr w"
| "run (c # cs) w = (case exec c w of Inl e \<Rightarrow> Inl e | Inr w' \<Rightarrow> run cs w')"

text \<open>A store with no array yet, where a program starts.\<close>

definition start :: "(nat \<Rightarrow> 'e subscriber_obj) \<Rightarrow> 'e \<Rightarrow> 'e world" where
  "start objs e =
     \<lparr>objects = objs, arrays = (\<lambda>_. []), fresh = 0,
      channel = \<lparr>subscriber = 0, name = []\<rparr>, console = [], invoked = [], env = e\<rparr>"

section \<open>What a broadcast does, as functions of the subscriber sequence\<close>

text \<open>The objects a sequence refers to, in order.\<close>

fun refs :: "val list \<Rightarrow> nat list" where
  "refs [] = []"
| "refs (Null # vs) = refs vs"
| "refs (Ref r # vs) = r # refs vs"

text \<open>The effect of one call on the subscriber sequence.\<close>

fun apply_call :: "call \<Rightarrow> val list \<Rightarrow> val list" where
  "apply_call (AddSubscriber s) xs = xs @ [s]"
| "apply_call (RemoveSubscriber s) xs = filter (\<lambda>sub. sub \<noteq> s) xs"

text \<open>
  What \<open>update\<close> of the object \<open>r\<close> does when the callback state is \<open>e\<close>: the calls it
  makes on the channel, the callback state it leaves, the messages it writes.
\<close>

definition calls_of :: "(nat \<Rightarrow> 'e subscriber_obj) \<Rightarrow> string \<Rightarrow> nat \<Rightarrow> 'e \<Rightarrow> call list" where
  "calls_of objs t r e =
     (case objs r of UserSubscriber n \<Rightarrow> [] | CallbackSubscriber f \<Rightarrow> fst (f t e))"

definition env_after :: "(nat \<Rightarrow> 'e subscriber_obj) \<Rightarrow> string \<Rightarrow> nat \<Rightarrow> 'e \<Rightarrow> 'e" where
  "env_after objs t r e =
     (case objs r of UserSubscriber n \<Rightarrow> e | CallbackSubscriber f \<Rightarrow> snd (f t e))"

definition lines_of :: "(nat \<Rightarrow> 'e subscriber_obj) \<Rightarrow> string \<Rightarrow> nat \<Rightarrow> string list" where
  "lines_of objs t r =
     (case objs r of UserSubscriber n \<Rightarrow> [notified_line n t] | CallbackSubscriber f \<Rightarrow> [])"

text \<open>The same for the receivers \<open>rs\<close> of one broadcast, invoked in order.\<close>

fun bc_calls :: "(nat \<Rightarrow> 'e subscriber_obj) \<Rightarrow> string \<Rightarrow> nat list \<Rightarrow> 'e \<Rightarrow> call list" where
  "bc_calls objs t [] e = []"
| "bc_calls objs t (r # rs) e = calls_of objs t r e @ bc_calls objs t rs (env_after objs t r e)"

fun bc_env :: "(nat \<Rightarrow> 'e subscriber_obj) \<Rightarrow> string \<Rightarrow> nat list \<Rightarrow> 'e \<Rightarrow> 'e" where
  "bc_env objs t [] e = e"
| "bc_env objs t (r # rs) e = bc_env objs t rs (env_after objs t r e)"

definition bc_lines :: "(nat \<Rightarrow> 'e subscriber_obj) \<Rightarrow> string \<Rightarrow> nat list \<Rightarrow> string list" where
  "bc_lines objs t rs = concat (map (lines_of objs t) rs)"

text \<open>
  What a caller can observe of a store: the subscriber sequence, the channel's name, the
  output, the invocations of \<open>update\<close> and the callback state, but no array reference.
\<close>

definition view :: "'e world \<Rightarrow> val list \<times> string \<times> string list \<times> (nat \<times> string) list \<times> 'e" where
  "view w = (subs w, name (channel w), console w, invoked w, env w)"

text \<open>The invocations of \<open>update\<close> made between the store \<open>w\<close> and the later store \<open>w'\<close>.\<close>

definition invoked_since :: "'e world \<Rightarrow> 'e world \<Rightarrow> (nat \<times> string) list" where
  "invoked_since w w' = drop (length (invoked w)) (invoked w')"

definition console_since :: "'e world \<Rightarrow> 'e world \<Rightarrow> string list" where
  "console_since w w' = drop (length (console w)) (console w')"

text \<open>Two stores that a caller cannot tell apart, both well-formed, with the same objects.\<close>

definition sim :: "'e world \<Rightarrow> 'e world \<Rightarrow> bool" where
  "sim w1 w2 \<longleftrightarrow> wf w1 \<and> wf w2 \<and> view w1 = view w2 \<and> objects w1 = objects w2"

text \<open>A call, by the owner or by a callback, whose handle argument is not \<open>null\<close>.\<close>

fun nonnull_op :: "op \<Rightarrow> bool" where
  "nonnull_op (Add s) = (s \<noteq> Null)"
| "nonnull_op (Remove s) = (s \<noteq> Null)"
| "nonnull_op (Publish title) = True"

fun nonnull_call :: "call \<Rightarrow> bool" where
  "nonnull_call (AddSubscriber s) = (s \<noteq> Null)"
| "nonnull_call (RemoveSubscriber s) = (s \<noteq> Null)"

section \<open>Concrete stores\<close>

text \<open>
  The objects of the source's script, \<open>new UserSubscriber("A")\<close>, \<open>("B")\<close>, \<open>("C")\<close>, at the
  references 1, 2, 3, and at 4 a subscriber whose \<open>update\<close> calls
  \<open>addSubscriber\<close> on object 1 and \<open>removeSubscriber\<close> on object 2.
\<close>

definition demo_objects :: "nat \<Rightarrow> unit subscriber_obj" where
  "demo_objects =
     (\<lambda>_. UserSubscriber ''?'')
       (1 := UserSubscriber ''A'', 2 := UserSubscriber ''B'', 3 := UserSubscriber ''C'',
        4 := CallbackSubscriber (\<lambda>t e. ([AddSubscriber (Ref 1), RemoveSubscriber (Ref 2)], e)))"

text \<open>\<open>new YoutubeChannel("codeWithMe")\<close> in a store with these objects.\<close>

definition demo_channel :: "unit world" where
  "demo_channel = new_YoutubeChannel ''codeWithMe'' (start demo_objects ())"

text \<open>The channel after \<open>addSubscriber\<close> of A, B and C, as in the source's script.\<close>

definition demo_ABC :: "unit world" where
  "demo_ABC = addSubscriber (Ref 3) (addSubscriber (Ref 2) (addSubscriber (Ref 1) demo_channel))"

text \<open>The channel after \<open>addSubscriber\<close> of the calling subscriber 4, then of B and C.\<close>

definition demo_callback :: "unit world" where
  "demo_callback =
     addSubscriber (Ref 3) (addSubscriber (Ref 2) (addSubscriber (Ref 4) demo_channel))"

section \<open>Lemmas\<close>

subsection \<open>The calls on the channel, field by field\<close>

lemma subs_add [simp]: "subs (addSubscriber s w) = subs w @ [s]"
  by (simp add: subs_def addSubscriber_def Let_def)

lemma subs_remove [simp]: "subs (removeSubscriber s w) = filter (\<lambda>sub. sub \<noteq> s) (subs w)"
  by (simp add: subs_def removeSubscriber_def Let_def)

lemma wf_add [simp]: "wf (addSubscriber s w) = wf w"
  by (simp add: wf_def addSubscriber_def Let_def)

lemma wf_remove [simp]: "wf (removeSubscriber s w)"
  by (simp add: wf_def removeSubscriber_def Let_def)

lemma frame_add [simp]:
  "objects (addSubscriber s w) = objects w" "name (channel (addSubscriber s w)) = name (channel w)"
  "console (addSubscriber s w) = console w" "invoked (addSubscriber s w) = invoked w"
  "env (addSubscriber s w) = env w" "fresh (addSubscriber s w) = fresh w"
  by (simp_all add: addSubscriber_def Let_def)

lemma frame_remove [simp]:
  "objects (removeSubscriber s w) = objects w" "name (channel (removeSubscriber s w)) = name (channel w)"
  "console (removeSubscriber s w) = console w" "invoked (removeSubscriber s w) = invoked w"
  "env (removeSubscriber s w) = env w" "fresh (removeSubscriber s w) = Suc (fresh w)"
  by (simp_all add: removeSubscriber_def Let_def)

lemma arrays_add: "\<exists>ys. arrays (addSubscriber s w) a = arrays w a @ ys"
  by (simp add: addSubscriber_def Let_def)

lemma arrays_remove: "a < fresh w \<Longrightarrow> arrays (removeSubscriber s w) a = arrays w a"
  by (simp add: removeSubscriber_def Let_def)

lemma arrays_run_call: "a < fresh w \<Longrightarrow> \<exists>ys. arrays (run_call c w) a = arrays w a @ ys"
  by (cases c) (simp_all add: arrays_add arrays_remove)

lemma fresh_run_call: "fresh w \<le> fresh (run_call c w)"
  by (cases c) simp_all

lemma wf_run_call: "wf w \<Longrightarrow> wf (run_call c w)"
  by (cases c) simp_all

lemma subs_run_call: "subs (run_call c w) = apply_call c (subs w)"
  by (cases c) simp_all

lemma frame_run_call [simp]:
  "objects (run_call c w) = objects w" "name (channel (run_call c w)) = name (channel w)"
  "console (run_call c w) = console w" "invoked (run_call c w) = invoked w"
  "env (run_call c w) = env w"
  by (cases c; simp)+

lemma fold_run_call:
  "wf w \<Longrightarrow> a < fresh w \<Longrightarrow>
   wf (fold run_call cs w) \<and> fresh w \<le> fresh (fold run_call cs w) \<and>
   (\<exists>ys. arrays (fold run_call cs w) a = arrays w a @ ys) \<and>
   subs (fold run_call cs w) = fold apply_call cs (subs w) \<and>
   objects (fold run_call cs w) = objects w \<and>
   name (channel (fold run_call cs w)) = name (channel w) \<and>
   console (fold run_call cs w) = console w \<and>
   invoked (fold run_call cs w) = invoked w \<and>
   env (fold run_call cs w) = env w"
proof (induction cs arbitrary: w)
  case Nil
  then show ?case by simp
next
  case (Cons c cs)
  have w1: "wf (run_call c w)" using Cons.prems(1) by (rule wf_run_call)
  have f1: "fresh w \<le> fresh (run_call c w)" by (rule fresh_run_call)
  then have a1: "a < fresh (run_call c w)" using Cons.prems(2) by simp
  obtain ys where ys: "arrays (run_call c w) a = arrays w a @ ys"
    using arrays_run_call [OF Cons.prems(2)] by blast
  from Cons.IH [OF w1 a1] f1 ys show ?case
    by (auto simp: subs_run_call)
qed

subsection \<open>One invocation of update\<close>

lemma update_props:
  assumes "wf w" "a < fresh w"
  shows "wf (update r t w) \<and> fresh w \<le> fresh (update r t w) \<and>
    (\<exists>ys. arrays (update r t w) a = arrays w a @ ys) \<and>
    subs (update r t w) = fold apply_call (calls_of (objects w) t r (env w)) (subs w) \<and>
    objects (update r t w) = objects w \<and>
    name (channel (update r t w)) = name (channel w) \<and>
    console (update r t w) = console w @ lines_of (objects w) t r \<and>
    invoked (update r t w) = invoked w @ [(r, t)] \<and>
    env (update r t w) = env_after (objects w) t r (env w)"
proof (cases "objects w r")
  case (UserSubscriber n)
  then show ?thesis
    using assms
    by (simp add: update_def Let_def wf_def subs_def calls_of_def lines_of_def env_after_def)
next
  case (CallbackSubscriber f)
  obtain cs e where fe: "f t (env w) = (cs, e)" by (cases "f t (env w)")
  let ?w1 = "w\<lparr>invoked := invoked w @ [(r, t)], env := e\<rparr>"
  have u: "update r t w = fold run_call cs ?w1"
    using CallbackSubscriber fe by (simp add: update_def Let_def)
  have w1: "wf ?w1" "a < fresh ?w1" using assms by (simp_all add: wf_def)
  have s1: "subs ?w1 = subs w" by (simp add: subs_def)
  from fold_run_call [OF w1, of cs] u CallbackSubscriber fe s1
  show ?thesis
    by (simp add: calls_of_def lines_of_def env_after_def)
qed

subsection \<open>The loop of the broadcast\<close>

lemma drop_take_step:
  "k < len \<Longrightarrow> len \<le> length xs \<Longrightarrow> drop k (take len xs) = xs ! k # drop (Suc k) (take len xs)"
  using Cons_nth_drop_Suc [of k "take len xs"] by simp

lemma ArrayMap_ok:
  "wf w \<Longrightarrow> a < fresh w \<Longrightarrow> len \<le> length (arrays w a) \<Longrightarrow>
   Null \<notin> set (drop k (take len (arrays w a))) \<Longrightarrow>
   \<exists>w'. ArrayMap a t len k w = Inr w' \<and> wf w' \<and>
     objects w' = objects w \<and> name (channel w') = name (channel w) \<and>
     invoked w' = invoked w @ map (\<lambda>r. (r, t)) (refs (drop k (take len (arrays w a)))) \<and>
     subs w' = fold apply_call
        (bc_calls (objects w) t (refs (drop k (take len (arrays w a)))) (env w)) (subs w) \<and>
     env w' = bc_env (objects w) t (refs (drop k (take len (arrays w a)))) (env w) \<and>
     console w' = console w @ bc_lines (objects w) t (refs (drop k (take len (arrays w a))))"
proof (induction a t len k w rule: ArrayMap.induct)
  case (1 a t len k w)
  show ?case
  proof (cases "k < len")
    case False
    then show ?thesis
      using "1.prems" by (simp add: ArrayMap.simps [of a t len k w] bc_lines_def)
  next
    case True
    then have kl: "k < length (arrays w a)" using "1.prems"(3) by simp
    have step: "drop k (take len (arrays w a)) = arrays w a ! k # drop (Suc k) (take len (arrays w a))"
      using True "1.prems"(3) by (rule drop_take_step)
    then obtain r where r: "arrays w a ! k = Ref r"
      using "1.prems"(4) by (cases "arrays w a ! k") auto
    let ?u = "update r t w"
    note U = update_props [OF "1.prems"(1,2), of r t]
    from U obtain ys where ys: "arrays ?u a = arrays w a @ ys" by blast
    have tk: "take len (arrays ?u a) = take len (arrays w a)"
      using ys "1.prems"(3) by simp
    have p1: "wf ?u" using U by simp
    have p2: "a < fresh ?u" using U "1.prems"(2) by simp
    have p3: "len \<le> length (arrays ?u a)" using ys "1.prems"(3) by simp
    have p4: "Null \<notin> set (drop (Suc k) (take len (arrays ?u a)))"
      using "1.prems"(4) step tk by simp
    from "1.IH"(1) [OF True kl r p1 p2 p3 p4]
    obtain w' where w': "ArrayMap a t len (Suc k) ?u = Inr w'" "wf w'"
      "objects w' = objects ?u" "name (channel w') = name (channel ?u)"
      "invoked w' = invoked ?u @ map (\<lambda>r. (r, t)) (refs (drop (Suc k) (take len (arrays ?u a))))"
      "subs w' = fold apply_call
        (bc_calls (objects ?u) t (refs (drop (Suc k) (take len (arrays ?u a)))) (env ?u)) (subs ?u)"
      "env w' = bc_env (objects ?u) t (refs (drop (Suc k) (take len (arrays ?u a)))) (env ?u)"
      "console w' = console ?u @ bc_lines (objects ?u) t (refs (drop (Suc k) (take len (arrays ?u a))))"
      by blast
    have am: "ArrayMap a t len k w = ArrayMap a t len (Suc k) ?u"
      using True kl r by (simp add: ArrayMap.simps [of a t len k w])
    show ?thesis
      using w' am U
      by (simp add: step r tk bc_lines_def)
  qed
qed

lemma ArrayMap_null:
  "wf w \<Longrightarrow> a < fresh w \<Longrightarrow> len \<le> length (arrays w a) \<Longrightarrow>
   Null \<in> set (drop k (take len (arrays w a))) \<Longrightarrow> ArrayMap a t len k w = Inl TypeError"
proof (induction a t len k w rule: ArrayMap.induct)
  case (1 a t len k w)
  show ?case
  proof (cases "k < len")
    case False
    then show ?thesis using "1.prems" by simp
  next
    case True
    then have kl: "k < length (arrays w a)" using "1.prems"(3) by simp
    have step: "drop k (take len (arrays w a)) = arrays w a ! k # drop (Suc k) (take len (arrays w a))"
      using True "1.prems"(3) by (rule drop_take_step)
    show ?thesis
    proof (cases "arrays w a ! k")
      case Null
      then show ?thesis using True kl by (simp add: ArrayMap.simps [of a t len k w])
    next
      case (Ref r)
      let ?u = "update r t w"
      note U = update_props [OF "1.prems"(1,2), of r t]
      from U obtain ys where ys: "arrays ?u a = arrays w a @ ys" by blast
      have tk: "take len (arrays ?u a) = take len (arrays w a)"
        using ys "1.prems"(3) by simp
      have p1: "wf ?u" using U by simp
      have p2: "a < fresh ?u" using U "1.prems"(2) by simp
      have p3: "len \<le> length (arrays ?u a)" using ys "1.prems"(3) by simp
      have p4: "Null \<in> set (drop (Suc k) (take len (arrays ?u a)))"
        using "1.prems"(4) step tk Ref by simp
      from "1.IH"(1) [OF True kl Ref p1 p2 p3 p4] True kl Ref
      show ?thesis by (simp add: ArrayMap.simps [of a t len k w])
    qed
  qed
qed

lemma subs_new [simp]: "subs (new_YoutubeChannel n w) = []"
  by (simp add: subs_def new_YoutubeChannel_def)

lemma wf_new [simp]: "wf (new_YoutubeChannel n w)"
  by (simp add: wf_def new_YoutubeChannel_def)

lemma frame_new [simp]:
  "objects (new_YoutubeChannel n w) = objects w" "name (channel (new_YoutubeChannel n w)) = n"
  "console (new_YoutubeChannel n w) = console w" "invoked (new_YoutubeChannel n w) = invoked w"
  "env (new_YoutubeChannel n w) = env w"
  by (simp_all add: new_YoutubeChannel_def)

lemma videoUpload_ok:
  assumes "wf w" "Null \<notin> set (subs w)"
  shows "\<exists>w'. videoUpload t w = Inr w' \<and> wf w' \<and>
     objects w' = objects w \<and> name (channel w') = name (channel w) \<and>
     invoked w' = invoked w @ map (\<lambda>r. (r, t)) (refs (subs w)) \<and>
     subs w' = fold apply_call (bc_calls (objects w) t (refs (subs w)) (env w)) (subs w) \<and>
     env w' = bc_env (objects w) t (refs (subs w)) (env w) \<and>
     console w' = console w @ uploaded_line (name (channel w)) t
                    # bc_lines (objects w) t (refs (subs w))"
proof -
  let ?w1 = "w\<lparr>console := console w @ [uploaded_line (name (channel w)) t]\<rparr>"
  let ?a = "subscriber (channel w)"
  have v: "videoUpload t w = ArrayMap ?a t (length (arrays w ?a)) 0 ?w1"
    by (simp add: videoUpload_def Let_def)
  have h: "wf ?w1" "?a < fresh ?w1" "length (arrays w ?a) \<le> length (arrays ?w1 ?a)"
    "Null \<notin> set (drop 0 (take (length (arrays w ?a)) (arrays ?w1 ?a)))"
    using assms by (simp_all add: wf_def subs_def)
  from ArrayMap_ok [OF h, of t] v show ?thesis
    by (simp add: subs_def)
qed

lemma videoUpload_null:
  assumes "wf w" "Null \<in> set (subs w)"
  shows "videoUpload t w = Inl TypeError"
proof -
  let ?w1 = "w\<lparr>console := console w @ [uploaded_line (name (channel w)) t]\<rparr>"
  let ?a = "subscriber (channel w)"
  have v: "videoUpload t w = ArrayMap ?a t (length (arrays w ?a)) 0 ?w1"
    by (simp add: videoUpload_def Let_def)
  have h: "wf ?w1" "?a < fresh ?w1" "length (arrays w ?a) \<le> length (arrays ?w1 ?a)"
    "Null \<in> set (drop 0 (take (length (arrays w ?a)) (arrays ?w1 ?a)))"
    using assms by (simp_all add: wf_def subs_def)
  from ArrayMap_null [OF h, of t] v show ?thesis by simp
qed

subsection \<open>Sequences and their receivers\<close>

lemma map_Ref_refs: "Null \<notin> set xs \<Longrightarrow> map Ref (refs xs) = xs"
  by (induction xs rule: refs.induct) auto

lemma length_refs: "Null \<notin> set xs \<Longrightarrow> length (refs xs) = length xs"
  by (induction xs rule: refs.induct) auto

lemma count_refs: "count_list (refs xs) r = count_list xs (Ref r)"
  by (induction xs rule: refs.induct) auto

lemma refs_map_Ref [simp]: "refs (map Ref rs) = rs"
  by (induction rs) auto

lemma invoked_sinceI: "invoked w' = invoked w @ xs \<Longrightarrow> invoked_since w w' = xs"
  by (simp add: invoked_since_def)

lemma console_sinceI: "console w' = console w @ xs \<Longrightarrow> console_since w w' = xs"
  by (simp add: console_since_def)

section \<open>The claims\<close>

text \<open>
  Claim C1. On a well-formed store whose subscriber sequence has no \<open>null\<close> entry,
  \<open>videoUpload\<close> returns normally, and the invocations of \<open>update\<close> made before it returns
  are exactly the entries of the sequence as it was at the call, each with the event as
  argument, one invocation per occurrence and in the order of the sequence; so their number
  is the length of the sequence.
\<close>
theorem publish_invokes_every_entry_in_order:
  assumes "wf w" and "Null \<notin> set (subs w)"
  shows "\<exists>w'. videoUpload event w = Inr w' \<and>
           map (\<lambda>(r, e). (Ref r, e)) (invoked_since w w') = map (\<lambda>h. (h, event)) (subs w) \<and>
           length (invoked_since w w') = length (subs w)"
proof -
  from videoUpload_ok [OF assms, of event]
  obtain w' where w': "videoUpload event w = Inr w'"
    and i: "invoked w' = invoked w @ map (\<lambda>r. (r, event)) (refs (subs w))"
    by blast
  have s: "invoked_since w w' = map (\<lambda>r. (r, event)) (refs (subs w))"
    using i by (rule invoked_sinceI)
  have "map (\<lambda>(r, e). (Ref r, e)) (invoked_since w w') = map (\<lambda>h. (h, event)) (map Ref (refs (subs w)))"
    by (simp add: s comp_def)
  then have "map (\<lambda>(r, e). (Ref r, e)) (invoked_since w w') = map (\<lambda>h. (h, event)) (subs w)"
    using assms(2) by (simp add: map_Ref_refs)
  moreover have "length (invoked_since w w') = length (subs w)"
    using assms(2) by (simp add: s length_refs)
  ultimately show ?thesis using w' by blast
qed

lemma subs_demo_ABC: "subs demo_ABC = [Ref 1, Ref 2, Ref 3]"
  by (simp add: demo_ABC_def demo_channel_def)

lemma wf_demo_ABC: "wf demo_ABC"
  by (simp add: demo_ABC_def demo_channel_def)

lemma subs_demo_callback: "subs demo_callback = [Ref 4, Ref 2, Ref 3]"
  by (simp add: demo_callback_def demo_channel_def)

lemma wf_demo_callback: "wf demo_callback"
  by (simp add: demo_callback_def demo_channel_def)

theorem publish_invokes_every_entry_in_order_witness:
  "wf demo_ABC \<and> Null \<notin> set (subs demo_ABC) \<and>
   (\<exists>w'. videoUpload ''ReactJs'' demo_ABC = Inr w' \<and>
      map (\<lambda>(r, e). (Ref r, e)) (invoked_since demo_ABC w')
        = [(Ref 1, ''ReactJs''), (Ref 2, ''ReactJs''), (Ref 3, ''ReactJs'')] \<and>
      length (invoked_since demo_ABC w') = 3)"
  using publish_invokes_every_entry_in_order [of demo_ABC "''ReactJs''"]
  by (simp add: subs_demo_ABC wf_demo_ABC numeral_3_eq_3)

lemma count_list_filter_other:
  "count_list (filter (\<lambda>sub. sub \<noteq> h) xs) x = (if x = h then 0 else count_list xs x)"
  by (induction xs) auto

lemma set_refs: "set (refs xs) = {r. Ref r \<in> set xs}"
  by (induction xs rule: refs.induct) auto

lemma refs_filter_absent: "r \<notin> set (refs (filter (\<lambda>sub. sub \<noteq> Ref r) xs))"
  by (simp add: set_refs)

text \<open>
  Claim C2. \<open>removeSubscriber(h)\<close> leaves the sequence without any entry equal to \<open>h\<close>:
  the new sequence is the old one filtered, so every occurrence of \<open>h\<close> is gone and the
  other entries keep their relative order (each of them occurs as often as before,
  and the new sequence is a subsequence of the old one).
\<close>
theorem removeSubscriber_removes_every_match:
  "subs (removeSubscriber h w) = filter (\<lambda>sub. sub \<noteq> h) (subs w) \<and>
   h \<notin> set (subs (removeSubscriber h w)) \<and>
   count_list (subs (removeSubscriber h w)) x = (if x = h then 0 else count_list (subs w) x) \<and>
   subseq (subs (removeSubscriber h w)) (subs w)"
  by (simp add: count_list_filter_other)

theorem removeSubscriber_removes_every_match_witness:
  "subs (addSubscriber (Ref 2) demo_ABC) = [Ref 1, Ref 2, Ref 3, Ref 2] \<and>
   subs (removeSubscriber (Ref 2) (addSubscriber (Ref 2) demo_ABC)) = [Ref 1, Ref 3]"
  using removeSubscriber_removes_every_match [of "Ref 2" "addSubscriber (Ref 2) demo_ABC" Null]
  by (simp add: subs_demo_ABC)

text \<open>
  Claim C3. After \<open>removeSubscriber(h)\<close>, an immediately following \<open>videoUpload\<close> returns
  normally and invokes \<open>update\<close> on \<open>h\<close> zero times, however often \<open>h\<close> had been added.
\<close>
theorem removed_handle_is_not_notified:
  assumes "Null \<notin> set (subs w)"
  shows "\<exists>w'. videoUpload event (removeSubscriber (Ref r) w) = Inr w' \<and>
           r \<notin> fst ` set (invoked_since (removeSubscriber (Ref r) w) w') \<and>
           count_list (map fst (invoked_since (removeSubscriber (Ref r) w) w')) r = 0"
proof -
  let ?w = "removeSubscriber (Ref r) w"
  have n: "Null \<notin> set (subs ?w)" using assms by simp
  from videoUpload_ok [OF wf_remove n, of event]
  obtain w' where w': "videoUpload event ?w = Inr w'"
    and i: "invoked w' = invoked ?w @ map (\<lambda>r. (r, event)) (refs (subs ?w))"
    by blast
  have s: "map fst (invoked_since ?w w') = refs (filter (\<lambda>sub. sub \<noteq> Ref r) (subs w))"
    using invoked_sinceI [OF i] by (simp add: comp_def)
  have a: "r \<notin> set (map fst (invoked_since ?w w'))"
    unfolding s by (rule refs_filter_absent)
  then have "count_list (map fst (invoked_since ?w w')) r = 0"
    by simp
  with a w' show ?thesis by auto
qed

theorem removed_handle_is_not_notified_witness:
  "Null \<notin> set (subs (addSubscriber (Ref 2) demo_ABC)) \<and>
   count_list (subs (addSubscriber (Ref 2) demo_ABC)) (Ref 2) = 2 \<and>
   (\<exists>w'. videoUpload ''Angular'' (removeSubscriber (Ref 2) (addSubscriber (Ref 2) demo_ABC)) = Inr w' \<and>
      2 \<notin> fst ` set (invoked_since (removeSubscriber (Ref 2) (addSubscriber (Ref 2) demo_ABC)) w') \<and>
      count_list (map fst (invoked_since (removeSubscriber (Ref 2) (addSubscriber (Ref 2) demo_ABC)) w')) 2 = 0)"
  using removed_handle_is_not_notified [of "addSubscriber (Ref 2) demo_ABC" "''Angular''" 2]
  by (simp add: subs_demo_ABC)

lemma subs_add_funpow: "subs ((addSubscriber h ^^ n) w) = subs w @ replicate n h"
  by (induction n) (simp_all add: replicate_append_same)

lemma wf_add_funpow: "wf ((addSubscriber h ^^ n) w) = wf w"
  by (induction n) simp_all

lemma count_list_replicate: "count_list (replicate n h) h = n"
  by (induction n) simp_all

text \<open>
  Claim C4. \<open>addSubscriber(h)\<close> appends \<open>h\<close> as the last entry and leaves the entries before
  it as they were; nothing is made unique: after \<open>n\<close> calls the sequence ends in \<open>n\<close> copies
  of \<open>h\<close>, \<open>h\<close> occurs \<open>n\<close> more times than before, and a broadcast invokes \<open>update\<close> on it
  once for each occurrence.
\<close>
theorem addSubscriber_appends_without_uniqueness:
  "subs (addSubscriber h w) = subs w @ [h] \<and>
   subs ((addSubscriber h ^^ n) w) = subs w @ replicate n h \<and>
   count_list (subs ((addSubscriber h ^^ n) w)) h = count_list (subs w) h + n \<and>
   (wf w \<and> Null \<notin> set (subs w) \<longrightarrow>
      (\<exists>w'. videoUpload event ((addSubscriber (Ref r) ^^ n) w) = Inr w' \<and>
         count_list (map fst (invoked_since ((addSubscriber (Ref r) ^^ n) w) w')) r
           = count_list (subs w) (Ref r) + n))"
proof -
  have "\<exists>w'. videoUpload event ((addSubscriber (Ref r) ^^ n) w) = Inr w' \<and>
         count_list (map fst (invoked_since ((addSubscriber (Ref r) ^^ n) w) w')) r
           = count_list (subs w) (Ref r) + n"
    if h: "wf w" "Null \<notin> set (subs w)"
  proof -
    let ?w = "(addSubscriber (Ref r) ^^ n) w"
    have a: "wf ?w" using h(1) by (simp add: wf_add_funpow)
    have b: "Null \<notin> set (subs ?w)" using h(2) by (simp add: subs_add_funpow)
    from videoUpload_ok [OF a b, of event]
    obtain w' where w': "videoUpload event ?w = Inr w'"
      and i: "invoked w' = invoked ?w @ map (\<lambda>r. (r, event)) (refs (subs ?w))"
      by blast
    have "map fst (invoked_since ?w w') = refs (subs ?w)"
      using invoked_sinceI [OF i] by (simp add: comp_def)
    then have "count_list (map fst (invoked_since ?w w')) r = count_list (subs w) (Ref r) + n"
      by (simp add: count_refs subs_add_funpow count_list_replicate)
    with w' show ?thesis by blast
  qed
  then show ?thesis
    by (simp add: subs_add_funpow count_list_replicate)
qed

theorem addSubscriber_appends_without_uniqueness_witness:
  "wf demo_ABC \<and> Null \<notin> set (subs demo_ABC) \<and>
   subs ((addSubscriber (Ref 1) ^^ 2) demo_ABC) = [Ref 1, Ref 2, Ref 3, Ref 1, Ref 1] \<and>
   (\<exists>w'. videoUpload ''ReactJs'' ((addSubscriber (Ref 1) ^^ 2) demo_ABC) = Inr w' \<and>
      count_list (map fst (invoked_since ((addSubscriber (Ref 1) ^^ 2) demo_ABC) w')) 1 = 3)"
  using addSubscriber_appends_without_uniqueness [of "Ref 1" demo_ABC 2 "''ReactJs''" 1]
  by (simp add: subs_demo_ABC wf_demo_ABC numeral_2_eq_2 numeral_3_eq_3)

lemma bc_lines_users:
  "map objs rs = map UserSubscriber ns \<Longrightarrow> bc_lines objs t rs = map (\<lambda>n. notified_line n t) ns"
proof (induction rs arbitrary: ns)
  case Nil
  then show ?case by (simp add: bc_lines_def)
next
  case (Cons r rs)
  then obtain n ns' where ns: "ns = n # ns'" "objs r = UserSubscriber n"
    "map objs rs = map UserSubscriber ns'"
    by (cases ns) auto
  from Cons.IH [OF ns(3)] ns(1,2) show ?case
    by (simp add: bc_lines_def lines_of_def)
qed

text \<open>
  Claim C5, as amended. When every entry of the sequence is a \<open>UserSubscriber\<close>, with names
  \<open>ns\<close> in order, \<open>videoUpload\<close> writes exactly one message announcing the event, the TV
  emoji, a space, the channel's name, \<open> uploaded: \<close> and the event in double quotes,
  followed by exactly one message per entry, the bell emoji, a space, the subscriber's
  name, \<open> got notified: New video \<close>, the event in double quotes and \<open> uploaded!\<close>.
\<close>
theorem publish_output_lines:
  assumes "wf w" and "subs w = map Ref rs" and "map (objects w) rs = map UserSubscriber ns"
  shows "\<exists>w'. videoUpload event w = Inr w' \<and>
           console_since w w' =
             (tv_emoji @ '' '' @ name (channel w) @ '' uploaded: '' @ [CHR 0x22] @ event @ [CHR 0x22])
             # map (\<lambda>n. bell_emoji @ '' '' @ n @ '' got notified: New video '' @ [CHR 0x22] @ event
                       @ [CHR 0x22] @ '' uploaded!'') ns"
proof -
  have n: "Null \<notin> set (subs w)" using assms(2) by auto
  from videoUpload_ok [OF assms(1) n, of event]
  obtain w' where w': "videoUpload event w = Inr w'"
    and c: "console w' = console w @ uploaded_line (name (channel w)) event
                    # bc_lines (objects w) event (refs (subs w))"
    by blast
  have "bc_lines (objects w) event (refs (subs w)) = map (\<lambda>n. notified_line n event) ns"
    using assms(2,3) by (simp add: bc_lines_users)
  with console_sinceI [OF c] w' show ?thesis
    by (simp add: uploaded_line_def notified_line_def)
qed

lemma objects_demo_ABC: "objects demo_ABC = demo_objects"
  by (simp add: demo_ABC_def demo_channel_def start_def)

lemma name_demo_ABC: "name (channel demo_ABC) = ''codeWithMe''"
  by (simp add: demo_ABC_def demo_channel_def)

theorem publish_output_lines_witness:
  "wf demo_ABC \<and> subs demo_ABC = map Ref [1, 2, 3] \<and>
   map (objects demo_ABC) [1, 2, 3] = map UserSubscriber [''A'', ''B'', ''C''] \<and>
   (\<exists>w'. videoUpload ''ReactJs'' demo_ABC = Inr w' \<and>
      console_since demo_ABC w' =
        [tv_emoji @ '' codeWithMe uploaded: '' @ [CHR 0x22] @ ''ReactJs'' @ [CHR 0x22],
         bell_emoji @ '' A got notified: New video '' @ [CHR 0x22] @ ''ReactJs'' @ [CHR 0x22] @ '' uploaded!'',
         bell_emoji @ '' B got notified: New video '' @ [CHR 0x22] @ ''ReactJs'' @ [CHR 0x22] @ '' uploaded!'',
         bell_emoji @ '' C got notified: New video '' @ [CHR 0x22] @ ''ReactJs'' @ [CHR 0x22] @ '' uploaded!''])"
  using publish_output_lines [of demo_ABC "[1, 2, 3]" "[''A'', ''B'', ''C'']" "''ReactJs''"]
  by (simp add: subs_demo_ABC wf_demo_ABC objects_demo_ABC name_demo_ABC demo_objects_def)

text \<open>
  Claim C5 as stated fails: the text of the messages is not
  \<open><notifier-name> emitted: "<event>"\<close> and \<open><subscriber-name> notified: "<event>"\<close>.
\<close>
theorem publish_output_spec_form_counterexample:
  "map_sum id (console_since demo_ABC) (videoUpload ''ReactJs'' demo_ABC) \<noteq>
     Inr [''codeWithMe emitted: '' @ [CHR 0x22] @ ''ReactJs'' @ [CHR 0x22],
          ''A notified: '' @ [CHR 0x22] @ ''ReactJs'' @ [CHR 0x22],
          ''B notified: '' @ [CHR 0x22] @ ''ReactJs'' @ [CHR 0x22],
          ''C notified: '' @ [CHR 0x22] @ ''ReactJs'' @ [CHR 0x22]]"
proof -
  have n: "Null \<notin> set (subs demo_ABC)" by (simp add: subs_demo_ABC)
  from videoUpload_ok [OF wf_demo_ABC n, of "''ReactJs''"]
  obtain w' where w': "videoUpload ''ReactJs'' demo_ABC = Inr w'"
    and c: "console w' = console demo_ABC @ uploaded_line (name (channel demo_ABC)) ''ReactJs''
                    # bc_lines (objects demo_ABC) ''ReactJs'' (refs (subs demo_ABC))"
    by blast
  show ?thesis
    using console_sinceI [OF c]
    by (simp add: w' uploaded_line_def tv_emoji_def)
qed

subsection \<open>Stores with the same observable state\<close>

lemma sim_add: "sim w1 w2 \<Longrightarrow> sim (addSubscriber s w1) (addSubscriber s w2)"
  by (simp add: sim_def view_def)

lemma sim_remove: "sim w1 w2 \<Longrightarrow> sim (removeSubscriber s w1) (removeSubscriber s w2)"
  by (simp add: sim_def view_def)

lemma sim_videoUpload:
  assumes "sim w1 w2"
  shows "rel_sum (=) sim (videoUpload t w1) (videoUpload t w2)"
proof (cases "Null \<in> set (subs w1)")
  case True
  then have "Null \<in> set (subs w2)" using assms by (simp add: sim_def view_def)
  with True assms show ?thesis
    by (simp add: sim_def videoUpload_null)
next
  case False
  then have n2: "Null \<notin> set (subs w2)" using assms by (simp add: sim_def view_def)
  have wf1: "wf w1" and wf2: "wf w2" using assms by (simp_all add: sim_def)
  from videoUpload_ok [OF wf1 False, of t] obtain u1 where u1: "videoUpload t w1 = Inr u1" "wf u1"
     "objects u1 = objects w1" "name (channel u1) = name (channel w1)"
     "invoked u1 = invoked w1 @ map (\<lambda>r. (r, t)) (refs (subs w1))"
     "subs u1 = fold apply_call (bc_calls (objects w1) t (refs (subs w1)) (env w1)) (subs w1)"
     "env u1 = bc_env (objects w1) t (refs (subs w1)) (env w1)"
     "console u1 = console w1 @ uploaded_line (name (channel w1)) t
                    # bc_lines (objects w1) t (refs (subs w1))"
    by blast
  from videoUpload_ok [OF wf2 n2, of t] obtain u2 where u2: "videoUpload t w2 = Inr u2" "wf u2"
     "objects u2 = objects w2" "name (channel u2) = name (channel w2)"
     "invoked u2 = invoked w2 @ map (\<lambda>r. (r, t)) (refs (subs w2))"
     "subs u2 = fold apply_call (bc_calls (objects w2) t (refs (subs w2)) (env w2)) (subs w2)"
     "env u2 = bc_env (objects w2) t (refs (subs w2)) (env w2)"
     "console u2 = console w2 @ uploaded_line (name (channel w2)) t
                    # bc_lines (objects w2) t (refs (subs w2))"
    by blast
  have "sim u1 u2"
    using assms u1(2-) u2(2-) by (simp add: sim_def view_def)
  then show ?thesis by (simp add: u1(1) u2(1))
qed

lemma sim_exec: "sim w1 w2 \<Longrightarrow> rel_sum (=) sim (exec c w1) (exec c w2)"
  by (cases c) (simp_all add: sim_add sim_remove sim_videoUpload)

lemma sim_run: "sim w1 w2 \<Longrightarrow> rel_sum (=) sim (run cs w1) (run cs w2)"
proof (induction cs arbitrary: w1 w2)
  case Nil
  then show ?case by simp
next
  case (Cons c cs)
  from sim_exec [OF Cons.prems, of c] Cons.IH show ?case
    by (cases "exec c w1"; cases "exec c w2") simp_all
qed

lemma sim_view: "rel_sum (=) sim x y \<Longrightarrow> map_sum id view x = map_sum id view y"
  by (cases x; cases y) (auto simp: sim_def)

lemma sim_remove_absent:
  assumes "wf w" "h \<notin> set (subs w)"
  shows "sim (removeSubscriber h w) w"
proof -
  have "filter (\<lambda>sub. sub \<noteq> h) (subs w) = subs w"
    using assms(2) by (auto simp: filter_id_conv)
  then show ?thesis using assms(1) by (simp add: sim_def view_def)
qed

text \<open>
  Claim C6. When \<open>h\<close> does not occur in the sequence, \<open>removeSubscriber(h)\<close> returns
  normally with the sequence, and everything else a caller can observe, unchanged; and
  every script of later calls (any number of \<open>videoUpload\<close>, \<open>addSubscriber\<close> and
  \<open>removeSubscriber\<close>) gives the same exception or the same observable result as it
  gives without the removal.
\<close>
theorem removeSubscriber_of_absent_handle_is_noop:
  assumes "wf w" and "h \<notin> set (subs w)"
  shows "exec (Remove h) w = Inr (removeSubscriber h w) \<and>
         subs (removeSubscriber h w) = subs w \<and>
         view (removeSubscriber h w) = view w \<and>
         map_sum id view (videoUpload event (removeSubscriber h w)) = map_sum id view (videoUpload event w) \<and>
         (\<forall>cs. map_sum id view (run cs (removeSubscriber h w)) = map_sum id view (run cs w))"
proof -
  note s = sim_remove_absent [OF assms]
  have a: "view (removeSubscriber h w) = view w" using s by (simp add: sim_def)
  then have b: "subs (removeSubscriber h w) = subs w" by (simp add: view_def)
  have c: "map_sum id view (videoUpload event (removeSubscriber h w)) = map_sum id view (videoUpload event w)"
    using sim_videoUpload [OF s] by (rule sim_view)
  have d: "map_sum id view (run cs (removeSubscriber h w)) = map_sum id view (run cs w)" for cs
    using sim_run [OF s] by (rule sim_view)
  from a b c d show ?thesis by simp
qed

theorem removeSubscriber_of_absent_handle_is_noop_witness:
  "wf demo_ABC \<and> Ref 4 \<notin> set (subs demo_ABC) \<and>
   subs (removeSubscriber (Ref 4) demo_ABC) = [Ref 1, Ref 2, Ref 3] \<and>
   map_sum id view (videoUpload ''ReactJs'' (removeSubscriber (Ref 4) demo_ABC))
     = map_sum id view (videoUpload ''ReactJs'' demo_ABC) \<and>
   map_sum id view (run [Publish ''ReactJs'', Remove (Ref 2), Publish ''Angular''] (removeSubscriber (Ref 4) demo_ABC))
     = map_sum id view (run [Publish ''ReactJs'', Remove (Ref 2), Publish ''Angular''] demo_ABC)"
proof -
  have h: "wf demo_ABC" "Ref 4 \<notin> set (subs demo_ABC)"
    by (simp_all add: subs_demo_ABC wf_demo_ABC)
  note T = removeSubscriber_of_absent_handle_is_noop [OF h, of "''ReactJs''"]
  have s: "subs (removeSubscriber (Ref 4) demo_ABC) = [Ref 1, Ref 2, Ref 3]"
    using T subs_demo_ABC by (simp only:)
  from h s T show ?thesis by blast
qed

subsection \<open>Handles that are not null\<close>

lemma apply_call_nonnull:
  "Null \<notin> set xs \<Longrightarrow> nonnull_call c \<Longrightarrow> Null \<notin> set (apply_call c xs)"
  by (cases c) auto

lemma fold_apply_call_nonnull:
  "Null \<notin> set xs \<Longrightarrow> \<forall>c\<in>set cs. nonnull_call c \<Longrightarrow> Null \<notin> set (fold apply_call cs xs)"
  by (induction cs arbitrary: xs) (simp_all add: apply_call_nonnull)

lemma bc_calls_nonnull:
  "\<forall>r t e. \<forall>c\<in>set (calls_of objs t r e). nonnull_call c \<Longrightarrow>
   \<forall>c\<in>set (bc_calls objs t rs e). nonnull_call c"
  by (induction rs arbitrary: e) auto

lemma exec_nonnull:
  assumes "wf w" "Null \<notin> set (subs w)" "nonnull_op c"
    and "\<forall>r t e. \<forall>c\<in>set (calls_of (objects w) t r e). nonnull_call c"
  shows "\<exists>w'. exec c w = Inr w' \<and> wf w' \<and> Null \<notin> set (subs w') \<and> objects w' = objects w"
proof (cases c)
  case (Add s)
  then show ?thesis using assms by simp
next
  case (Remove s)
  then show ?thesis using assms by simp
next
  case (Publish t)
  from videoUpload_ok [OF assms(1,2), of t]
  obtain w' where w': "videoUpload t w = Inr w'" "wf w'" "objects w' = objects w"
    "subs w' = fold apply_call (bc_calls (objects w) t (refs (subs w)) (env w)) (subs w)"
    by blast
  have "Null \<notin> set (subs w')"
    unfolding w'(4)
    using assms(2) bc_calls_nonnull [OF assms(4)] by (rule fold_apply_call_nonnull)
  with w' Publish show ?thesis by simp
qed

lemma run_nonnull:
  assumes "\<forall>r t e. \<forall>c\<in>set (calls_of objs t r e). nonnull_call c"
  shows "wf w \<Longrightarrow> Null \<notin> set (subs w) \<Longrightarrow> objects w = objs \<Longrightarrow> \<forall>c\<in>set cs. nonnull_op c \<Longrightarrow>
     \<exists>w'. run cs w = Inr w' \<and> Null \<notin> set (subs w')"
proof (induction cs arbitrary: w)
  case Nil
  then show ?case by simp
next
  case (Cons c cs)
  have c: "nonnull_op c" using Cons.prems(4) by simp
  have o: "\<forall>r t e. \<forall>c\<in>set (calls_of (objects w) t r e). nonnull_call c"
    using assms Cons.prems(3) by simp
  from exec_nonnull [OF Cons.prems(1,2) c o]
  obtain u where u: "exec c w = Inr u" "wf u" "Null \<notin> set (subs u)" "objects u = objects w"
    by blast
  have "\<exists>w'. run cs u = Inr w' \<and> Null \<notin> set (subs w')"
    using Cons.IH [OF u(2,3)] u(4) Cons.prems(3,4) by simp
  then show ?case using u(1) by simp
qed

text \<open>
  Claim C8. From a newly constructed channel, every script of \<open>addSubscriber\<close>,
  \<open>removeSubscriber\<close> and \<open>videoUpload\<close> calls whose handle arguments are not \<open>null\<close>,
  those of the calls made by callbacks included, runs without exception and ends with a
  subscriber sequence that has no \<open>null\<close> entry.
\<close>
theorem reachable_sequence_has_no_null_entry:
  assumes "\<forall>c\<in>set cs. nonnull_op c"
    and "\<forall>r t e. \<forall>c\<in>set (calls_of (objects w0) t r e). nonnull_call c"
  shows "\<forall>k. \<exists>w'. run (take k cs) (new_YoutubeChannel channelName w0) = Inr w' \<and>
                 Null \<notin> set (subs w')"
proof
  fix k
  have "\<forall>c\<in>set (take k cs). nonnull_op c"
    using assms(1) by (auto dest: in_set_takeD)
  with run_nonnull [OF assms(2), of "new_YoutubeChannel channelName w0" "take k cs"]
  show "\<exists>w'. run (take k cs) (new_YoutubeChannel channelName w0) = Inr w' \<and> Null \<notin> set (subs w')"
    by simp
qed

lemma demo_calls_nonnull: "\<forall>r t e. \<forall>c\<in>set (calls_of demo_objects t r e). nonnull_call c"
  by (simp add: calls_of_def demo_objects_def)

theorem reachable_sequence_has_no_null_entry_witness:
  "\<exists>w'. run [Add (Ref 4), Add (Ref 2), Add (Ref 3), Publish ''ReactJs'', Remove (Ref 3),
            Publish ''Angular''] demo_channel = Inr w' \<and>
        Null \<notin> set (subs w')"
proof -
  let ?cs = "[Add (Ref 4), Add (Ref 2), Add (Ref 3), Publish ''ReactJs'', Remove (Ref 3),
            Publish ''Angular'']"
  have a: "\<forall>c\<in>set ?cs. nonnull_op c" by simp
  have b: "\<forall>r t e. \<forall>c\<in>set (calls_of (objects (start demo_objects ())) t r e). nonnull_call c"
    using demo_calls_nonnull by (simp add: start_def)
  have t: "take 6 ?cs = ?cs" by simp
  from reachable_sequence_has_no_null_entry [OF a b, of "''codeWithMe''"]
  have "\<exists>w'. run (take 6 ?cs) demo_channel = Inr w' \<and> Null \<notin> set (subs w')"
    unfolding demo_channel_def by (rule spec)
  then show ?thesis by (simp only: t)
qed

lemma run_without_publish:
  "\<forall>c\<in>set cs. \<forall>title. c \<noteq> Publish title \<Longrightarrow> \<exists>w'. run cs w = Inr w'"
proof (induction cs arbitrary: w)
  case Nil
  then show ?case by simp
next
  case (Cons c cs)
  then show ?case by (cases c) simp_all
qed

text \<open>
  Claim C7. With an empty subscriber sequence \<open>videoUpload\<close> returns normally, invokes
  \<open>update\<close> zero times and writes exactly one message, the announcement of the event: the
  four bytes of the TV emoji, a space, the channel's name, \<open> uploaded: \<close> and the event in
  double quotes; nothing else of the store changes. No operation has a failing input:
  \<open>addSubscriber\<close> and \<open>removeSubscriber\<close> return normally on every store and every handle,
  so every script of such calls runs to its end; \<open>videoUpload\<close> returns normally on every
  event, on every well-formed store whose sequence has no \<open>null\<close> entry, and so after every
  script of calls with handles that are not \<open>null\<close> on a newly constructed channel.
\<close>
theorem publish_without_subscribers_and_totality:
  "(subs w = [] \<longrightarrow>
      (\<exists>w'. videoUpload event w = Inr w' \<and> invoked_since w w' = [] \<and> invoked w' = invoked w \<and>
         console_since w w' =
           [[CHR 0xF0, CHR 0x9F, CHR 0x93, CHR 0xBA] @ '' '' @ name (channel w) @ '' uploaded: ''
              @ [CHR 0x22] @ event @ [CHR 0x22]] \<and>
         w' = w\<lparr>console := console w @
                 [[CHR 0xF0, CHR 0x9F, CHR 0x93, CHR 0xBA] @ '' '' @ name (channel w)
                    @ '' uploaded: '' @ [CHR 0x22] @ event @ [CHR 0x22]]\<rparr>)) \<and>
   (\<exists>w'. exec (Add h) w = Inr w' \<and> subs w' = subs w @ [h]) \<and>
   (\<exists>w'. exec (Remove h) w = Inr w' \<and> h \<notin> set (subs w')) \<and>
   ((\<forall>c\<in>set cs. \<forall>title. c \<noteq> Publish title) \<longrightarrow> (\<exists>w'. run cs w = Inr w')) \<and>
   (wf w \<and> Null \<notin> set (subs w) \<longrightarrow> (\<exists>w'. exec (Publish event) w = Inr w')) \<and>
   ((\<forall>c\<in>set cs. nonnull_op c) \<and>
    (\<forall>r t e. \<forall>c\<in>set (calls_of (objects w) t r e). nonnull_call c) \<longrightarrow>
      (\<exists>w'. run (cs @ [Publish event]) (new_YoutubeChannel channelName w) = Inr w'))"
proof -
  let ?line = "[CHR 0xF0, CHR 0x9F, CHR 0x93, CHR 0xBA] @ '' '' @ name (channel w)
                 @ '' uploaded: '' @ [CHR 0x22] @ event @ [CHR 0x22]"
  have a: "videoUpload event w = Inr (w\<lparr>console := console w @ [?line]\<rparr>)"
    if "subs w = []"
    using that
    by (simp add: videoUpload_def Let_def subs_def ArrayMap.simps uploaded_line_def tv_emoji_def)
  have a': "\<exists>w'. videoUpload event w = Inr w' \<and> invoked_since w w' = [] \<and>
       invoked w' = invoked w \<and> console_since w w' = [?line] \<and>
       w' = w\<lparr>console := console w @ [?line]\<rparr>"
    if "subs w = []"
    using a [OF that] by (simp add: invoked_since_def console_since_def)
  have b: "\<exists>w'. exec (Publish event) w = Inr w'" if "wf w" "Null \<notin> set (subs w)"
    using videoUpload_ok [OF that, of event] by auto
  have c: "\<exists>w'. run cs w = Inr w'" if "\<forall>c\<in>set cs. \<forall>title. c \<noteq> Publish title"
    using that by (rule run_without_publish)
  have d: "\<exists>w'. run (cs @ [Publish event]) (new_YoutubeChannel channelName w) = Inr w'"
    if n: "\<forall>c\<in>set cs. nonnull_op c"
      and o: "\<forall>r t e. \<forall>c\<in>set (calls_of (objects w) t r e). nonnull_call c"
  proof -
    have "\<forall>c\<in>set (cs @ [Publish event]). nonnull_op c" using n by simp
    with run_nonnull [OF o, of "new_YoutubeChannel channelName w" "cs @ [Publish event]"]
    show ?thesis by auto
  qed
  have e: "\<exists>w'. exec (Add h) w = Inr w' \<and> subs w' = subs w @ [h]" by simp
  have f: "\<exists>w'. exec (Remove h) w = Inr w' \<and> h \<notin> set (subs w')" by simp
  from a' b c d e f show ?thesis by blast
qed

theorem publish_without_subscribers_and_totality_witness:
  "subs demo_channel = [] \<and> wf demo_channel \<and> Null \<notin> set (subs demo_channel) \<and>
   videoUpload ''X'' demo_channel
     = Inr (demo_channel\<lparr>console :=
              [[CHR 0xF0, CHR 0x9F, CHR 0x93, CHR 0xBA] @ '' codeWithMe uploaded: ''
                 @ [CHR 0x22] @ ''X'' @ [CHR 0x22]]\<rparr>) \<and>
   (\<exists>w'. run [Add Null, Remove (Ref 1), Add (Ref 1)] demo_channel = Inr w') \<and>
   (\<exists>w'. exec (Publish ''X'') demo_channel = Inr w') \<and>
   (\<exists>w'. run ([Add (Ref 1), Add (Ref 4), Remove (Ref 1)] @ [Publish ''X''])
           (new_YoutubeChannel ''codeWithMe'' demo_channel) = Inr w')"
proof -
  let ?line = "[CHR 0xF0, CHR 0x9F, CHR 0x93, CHR 0xBA] @ '' codeWithMe uploaded: ''
                 @ [CHR 0x22] @ ''X'' @ [CHR 0x22]"
  have h: "subs demo_channel = []" "wf demo_channel" "Null \<notin> set (subs demo_channel)"
    by (simp_all add: demo_channel_def)
  have n: "name (channel demo_channel) = ''codeWithMe''" "console demo_channel = []"
    by (simp_all add: demo_channel_def start_def)
  have o: "\<forall>r t e. \<forall>c\<in>set (calls_of (objects demo_channel) t r e). nonnull_call c"
    using demo_calls_nonnull by (simp add: demo_channel_def start_def)
  have p1: "\<forall>c\<in>set [Add Null, Remove (Ref 1), Add (Ref 1)]. \<forall>title. c \<noteq> Publish title"
    by simp
  have p2: "\<forall>c\<in>set [Add (Ref 1), Add (Ref 4), Remove (Ref 1)]. nonnull_op c"
    by simp
  note T1 = publish_without_subscribers_and_totality
    [of demo_channel "''X''" "Ref 1" "[Add Null, Remove (Ref 1), Add (Ref 1)]" "''codeWithMe''"]
  note T2 = publish_without_subscribers_and_totality
    [of demo_channel "''X''" "Ref 1" "[Add (Ref 1), Add (Ref 4), Remove (Ref 1)]" "''codeWithMe''"]
  have v: "videoUpload ''X'' demo_channel = Inr (demo_channel\<lparr>console := [?line]\<rparr>)"
    using T1 h(1) n by simp
  have r1: "\<exists>w'. run [Add Null, Remove (Ref 1), Add (Ref 1)] demo_channel = Inr w'"
    using T1 p1 by blast
  have r2: "\<exists>w'. exec (Publish ''X'') demo_channel = Inr w'"
    using T1 h(2,3) by blast
  have r3: "\<exists>w'. run ([Add (Ref 1), Add (Ref 4), Remove (Ref 1)] @ [Publish ''X''])
           (new_YoutubeChannel ''codeWithMe'' demo_channel) = Inr w'"
    using T2 p2 o by blast
  from h v r1 r2 r3 show ?thesis by blast
qed

subsection \<open>Broadcasts to objects of the class UserSubscriber\<close>

lemma bc_calls_users:
  "\<forall>r\<in>set rs. \<exists>n. objs r = UserSubscriber n \<Longrightarrow> bc_calls objs t rs e = []"
  by (induction rs arbitrary: e) (auto simp: calls_of_def)

lemma ArrayMap_users:
  "len \<le> length (arrays w a) \<Longrightarrow>
   Null \<notin> set (drop k (take len (arrays w a))) \<Longrightarrow>
   \<forall>r\<in>set (refs (drop k (take len (arrays w a)))). \<exists>n. objects w r = UserSubscriber n \<Longrightarrow>
   \<exists>i c. ArrayMap a t len k w = Inr (w\<lparr>invoked := i, console := c\<rparr>)"
proof (induction a t len k w rule: ArrayMap.induct)
  case (1 a t len k w)
  show ?case
  proof (cases "k < len")
    case False
    have "w = w\<lparr>invoked := invoked w, console := console w\<rparr>" by simp
    then have "\<exists>i c. w = w\<lparr>invoked := i, console := c\<rparr>" by blast
    then show ?thesis
      using False by (simp add: ArrayMap.simps [of a t len k w])
  next
    case True
    then have kl: "k < length (arrays w a)" using "1.prems"(1) by simp
    have step: "drop k (take len (arrays w a)) = arrays w a ! k # drop (Suc k) (take len (arrays w a))"
      using True "1.prems"(1) by (rule drop_take_step)
    then obtain r where r: "arrays w a ! k = Ref r"
      using "1.prems"(2) by (cases "arrays w a ! k") auto
    obtain n where n: "objects w r = UserSubscriber n"
      using "1.prems"(3) step r by auto
    let ?u = "w\<lparr>invoked := invoked w @ [(r, t)], console := console w @ [notified_line n t]\<rparr>"
    have u: "update r t w = ?u"
      using n by (simp add: update_def Let_def)
    have p1: "len \<le> length (arrays (update r t w) a)" using "1.prems"(1) u by simp
    have p2: "Null \<notin> set (drop (Suc k) (take len (arrays (update r t w) a)))"
      using "1.prems"(2) step u by simp
    have p3: "\<forall>q\<in>set (refs (drop (Suc k) (take len (arrays (update r t w) a)))).
                \<exists>n. objects (update r t w) q = UserSubscriber n"
      using "1.prems"(3) step r u by simp
    from "1.IH"(1) [OF True kl r p1 p2 p3]
    obtain i c where ic: "ArrayMap a t len (Suc k) (update r t w) = Inr ((update r t w)\<lparr>invoked := i, console := c\<rparr>)"
      by blast
    have "ArrayMap a t len k w = Inr (w\<lparr>invoked := i, console := c\<rparr>)"
      using True kl r ic u by (simp add: ArrayMap.simps [of a t len k w])
    then show ?thesis by blast
  qed
qed

lemma videoUpload_users:
  assumes "Null \<notin> set (subs w)" "\<forall>r\<in>set (refs (subs w)). \<exists>n. objects w r = UserSubscriber n"
  shows "\<exists>i c. videoUpload t w = Inr (w\<lparr>invoked := i, console := c\<rparr>)"
proof -
  let ?w1 = "w\<lparr>console := console w @ [uploaded_line (name (channel w)) t]\<rparr>"
  let ?a = "subscriber (channel w)"
  have v: "videoUpload t w = ArrayMap ?a t (length (arrays w ?a)) 0 ?w1"
    by (simp add: videoUpload_def Let_def)
  have h: "length (arrays w ?a) \<le> length (arrays ?w1 ?a)"
    "Null \<notin> set (drop 0 (take (length (arrays w ?a)) (arrays ?w1 ?a)))"
    "\<forall>r\<in>set (refs (drop 0 (take (length (arrays w ?a)) (arrays ?w1 ?a)))).
        \<exists>n. objects ?w1 r = UserSubscriber n"
    using assms by (simp_all add: subs_def)
  from ArrayMap_users [OF h, of t] v show ?thesis by simp
qed

text \<open>
  Claim C9, as amended. \<open>videoUpload\<close> itself assigns neither field of the channel: the
  name after it is the name before it, and the subscriber sequence after it is the
  sequence before it with the \<open>addSubscriber\<close> and \<open>removeSubscriber\<close> calls that the
  subscribers' callbacks made during the broadcast applied in order. So the sequence is
  unchanged whenever no callback makes such a call, as when every entry is a
  \<open>UserSubscriber\<close>.
\<close>
theorem publish_changes_sequence_only_by_callback_calls:
  assumes "wf w" and "Null \<notin> set (subs w)"
  shows "\<exists>w'. videoUpload event w = Inr w' \<and>
           name (channel w') = name (channel w) \<and>
           subs w' = fold apply_call
                       (bc_calls (objects w) event (refs (subs w)) (env w)) (subs w) \<and>
           ((\<forall>r\<in>set (refs (subs w)). \<exists>n. objects w r = UserSubscriber n) \<longrightarrow>
              subs w' = subs w \<and> channel w' = channel w \<and> arrays w' = arrays w)"
proof -
  from videoUpload_ok [OF assms, of event]
  obtain w' where w': "videoUpload event w = Inr w'" "name (channel w') = name (channel w)"
    "subs w' = fold apply_call (bc_calls (objects w) event (refs (subs w)) (env w)) (subs w)"
    by blast
  have "subs w' = subs w \<and> channel w' = channel w \<and> arrays w' = arrays w"
    if u: "\<forall>r\<in>set (refs (subs w)). \<exists>n. objects w r = UserSubscriber n"
  proof -
    from videoUpload_users [OF assms(2) u, of event] w'(1)
    obtain i c where "w' = w\<lparr>invoked := i, console := c\<rparr>" by auto
    then show ?thesis by (simp add: subs_def)
  qed
  with w' show ?thesis by blast
qed

lemma objects_demo_callback: "objects demo_callback = demo_objects"
  by (simp add: demo_callback_def demo_channel_def start_def)

theorem publish_changes_sequence_only_by_callback_calls_witness:
  "wf demo_ABC \<and> Null \<notin> set (subs demo_ABC) \<and>
   (\<exists>w'. videoUpload ''ReactJs'' demo_ABC = Inr w' \<and>
      name (channel w') = ''codeWithMe'' \<and> subs w' = [Ref 1, Ref 2, Ref 3] \<and>
      channel w' = channel demo_ABC \<and> arrays w' = arrays demo_ABC)"
proof -
  have h: "wf demo_ABC" "Null \<notin> set (subs demo_ABC)"
    by (simp_all add: subs_demo_ABC wf_demo_ABC)
  have u: "\<forall>r\<in>set (refs (subs demo_ABC)). \<exists>n. objects demo_ABC r = UserSubscriber n"
    by (simp add: subs_demo_ABC objects_demo_ABC demo_objects_def)
  from publish_changes_sequence_only_by_callback_calls [OF h, of "''ReactJs''"] u
  obtain w' where "videoUpload ''ReactJs'' demo_ABC = Inr w'"
    "name (channel w') = name (channel demo_ABC)"
    "subs w' = subs demo_ABC \<and> channel w' = channel demo_ABC \<and> arrays w' = arrays demo_ABC"
    by blast
  then show ?thesis using h by (auto simp: subs_demo_ABC name_demo_ABC)
qed

text \<open>
  Claim C9 as stated fails when a subscriber's \<open>update\<close> calls back into the channel: the
  sequence after the broadcast is not the sequence before it.
\<close>
theorem publish_leaves_sequence_counterexample:
  "map_sum id subs (videoUpload ''ReactJs'' demo_callback) \<noteq> Inr (subs demo_callback)"
proof -
  have n: "Null \<notin> set (subs demo_callback)" by (simp add: subs_demo_callback)
  from videoUpload_ok [OF wf_demo_callback n, of "''ReactJs''"]
  obtain w' where w': "videoUpload ''ReactJs'' demo_callback = Inr w'"
    and s: "subs w' = fold apply_call
       (bc_calls (objects demo_callback) ''ReactJs'' (refs (subs demo_callback)) (env demo_callback))
       (subs demo_callback)"
    by blast
  have "subs w' = [Ref 4, Ref 3, Ref 1]"
    unfolding s
    by (simp add: subs_demo_callback objects_demo_callback calls_of_def env_after_def
        demo_objects_def)
  then show ?thesis by (simp add: w' subs_demo_callback)
qed

text \<open>
  Claim C10. The receivers of one broadcast, in order, are exactly the entries of the
  subscriber sequence as it was when \<open>videoUpload\<close> was called, whatever \<open>addSubscriber\<close>
  and \<open>removeSubscriber\<close> calls the callbacks make on the channel meanwhile: a handle is
  invoked if and only if it was in the sequence at the call. The callbacks' calls do take
  effect on the channel: they are all applied to the sequence that \<open>videoUpload\<close> leaves.
\<close>
theorem broadcast_runs_over_sequence_at_call:
  assumes "wf w" and "Null \<notin> set (subs w)"
  shows "\<exists>w'. videoUpload event w = Inr w' \<and>
           map (Ref \<circ> fst) (invoked_since w w') = subs w \<and>
           (\<forall>r. (r \<in> fst ` set (invoked_since w w')) = (Ref r \<in> set (subs w))) \<and>
           subs w' = fold apply_call
                       (bc_calls (objects w) event (refs (subs w)) (env w)) (subs w)"
proof -
  from videoUpload_ok [OF assms, of event]
  obtain w' where w': "videoUpload event w = Inr w'"
    and i: "invoked w' = invoked w @ map (\<lambda>r. (r, event)) (refs (subs w))"
    and s: "subs w' = fold apply_call (bc_calls (objects w) event (refs (subs w)) (env w)) (subs w)"
    by blast
  have f: "map fst (invoked_since w w') = refs (subs w)"
    using invoked_sinceI [OF i] by (simp add: comp_def)
  have a: "map (Ref \<circ> fst) (invoked_since w w') = subs w"
    using f map_Ref_refs [OF assms(2)] by (metis map_map)
  have b: "(r \<in> fst ` set (invoked_since w w')) = (Ref r \<in> set (subs w))" for r
    using f set_refs [of "subs w"] by (metis mem_Collect_eq set_map)
  from w' a b s show ?thesis by blast
qed

theorem broadcast_runs_over_sequence_at_call_witness:
  "wf demo_callback \<and> Null \<notin> set (subs demo_callback) \<and>
   (\<exists>w'. videoUpload ''ReactJs'' demo_callback = Inr w' \<and>
      map (Ref \<circ> fst) (invoked_since demo_callback w') = [Ref 4, Ref 2, Ref 3] \<and>
      subs w' = [Ref 4, Ref 3, Ref 1])"
proof -
  have h: "wf demo_callback" "Null \<notin> set (subs demo_callback)"
    by (simp_all add: subs_demo_callback wf_demo_callback)
  from broadcast_runs_over_sequence_at_call [OF h, of "''ReactJs''"]
  obtain w' where w': "videoUpload ''ReactJs'' demo_callback = Inr w'"
    and r: "map (Ref \<circ> fst) (invoked_since demo_callback w') = subs demo_callback"
    and s: "subs w' = fold apply_call
       (bc_calls (objects demo_callback) ''ReactJs'' (refs (subs demo_callback)) (env demo_callback))
       (subs demo_callback)"
    by blast
  have "subs w' = [Ref 4, Ref 3, Ref 1]"
    unfolding s
    by (simp add: subs_demo_callback objects_demo_callback calls_of_def env_after_def
        demo_objects_def)
  with w' r h show ?thesis by (simp add: subs_demo_callback)
qed

end
